theory Spec2Isabelle
  imports Complex_Main "HOL-Library.Sublist"
begin

section \<open>Python strings\<close>

text \<open>
  A Python \<^verbatim>\<open>str\<close> is a sequence of Unicode code points. It is modelled as the list of
  its code points, so that \<open>length\<close> counts what Python's \<^verbatim>\<open>len\<close> counts and the
  whitespace class is the one of \<^verbatim>\<open>str.strip()\<close> and of \<^verbatim>\<open>\s\<close> in a \<^verbatim>\<open>str\<close> pattern.
  \<open>ustr\<close> reads an ASCII literal as such a string.
\<close>

type_synonym codepoint = nat
type_synonym str = "codepoint list"

definition ustr :: "string \<Rightarrow> str" where
  "ustr cs = map of_char cs"

abbreviation (input) NEWLINE :: codepoint where "NEWLINE \<equiv> 10"
abbreviation (input) DQUOTE :: codepoint where "DQUOTE \<equiv> 34"
abbreviation (input) PLUS :: codepoint where "PLUS \<equiv> 43"
abbreviation (input) BACKSLASH :: codepoint where "BACKSLASH \<equiv> 92"
abbreviation (input) LETTER_n :: codepoint where "LETTER_n \<equiv> 110"

text \<open>
  The whitespace of \<^verbatim>\<open>str.isspace\<close>, \<^verbatim>\<open>str.strip()\<close> and \<^verbatim>\<open>\s\<close>: tab, line feed,
  vertical tab, form feed, carriage return, the separators U+001C to U+001F, space,
  U+0085, U+00A0, U+1680, U+2000 to U+200A, U+2028, U+2029, U+202F, U+205F, U+3000.
\<close>

definition py_isspace :: "codepoint \<Rightarrow> bool" where
  "py_isspace c \<longleftrightarrow>
     (9 \<le> c \<and> c \<le> 13) \<or> (28 \<le> c \<and> c \<le> 32) \<or> c = 133 \<or> c = 160 \<or> c = 5760 \<or>
     (8192 \<le> c \<and> c \<le> 8202) \<or> c = 8232 \<or> c = 8233 \<or> c = 8239 \<or> c = 8287 \<or> c = 12288"

text \<open>\<^verbatim>\<open>s.strip()\<close>: the whitespace at both ends is dropped.\<close>

definition strip :: "str \<Rightarrow> str" where
  "strip s = rev (dropWhile py_isspace (rev (dropWhile py_isspace s)))"

text \<open>
  \<^verbatim>\<open>old in s\<close> and \<^verbatim>\<open>s.replace(old, new)\<close>: every occurrence of \<open>old\<close>, found from the left
  and not overlapping an earlier one, is replaced. With an empty \<open>old\<close> Python puts
  \<open>new\<close> before every character and at the end.
\<close>

fun py_contains :: "str \<Rightarrow> str \<Rightarrow> bool" where
  "py_contains old [] = (old = [])"
| "py_contains old (c # cs) = (prefix old (c # cs) \<or> py_contains old cs)"

function replace :: "str \<Rightarrow> str \<Rightarrow> str \<Rightarrow> str" where
  "replace old new s =
     (if old = [] then new @ concat (map (\<lambda>c. c # new) s)
      else if prefix old s then new @ replace old new (drop (length old) s)
      else (case s of [] \<Rightarrow> [] | c # cs \<Rightarrow> c # replace old new cs))"
  by pat_completeness auto
termination
  by (relation "measure (\<lambda>(old, new, s). length s)") (auto simp: prefix_def)

text \<open>\<^verbatim>\<open>str(x)\<close> for an \<^verbatim>\<open>int\<close> and for an optional string (\<^verbatim>\<open>None\<close> prints as \<^verbatim>\<open>None\<close>).\<close>

fun digits :: "nat \<Rightarrow> str" where
  "digits n = (if n < 10 then [48 + n] else digits (n div 10) @ [48 + n mod 10])"

definition str_int :: "int \<Rightarrow> str" where
  "str_int i = (if i < 0 then 45 # digits (nat (- i)) else digits (nat i))"

definition str_opt :: "str option \<Rightarrow> str" where
  "str_opt x = (case x of None \<Rightarrow> ustr ''None'' | Some s \<Rightarrow> s)"

section \<open>The sanitizer \<^verbatim>\<open>clean_ai_json\<close>\<close>

text \<open>
  \<^verbatim>\<open>re.sub(r"^```json\s*", "", s)\<close>. Without \<^verbatim>\<open>re.MULTILINE\<close> the anchor matches at
  position 0 only, so there is at most one match: the marker and all the whitespace
  that follows it.
\<close>

definition fence_json :: str where
  "fence_json = ustr ''```json''"

definition fence :: str where
  "fence = ustr ''```''"

definition sub_leading_fence :: "str \<Rightarrow> str" where
  "sub_leading_fence s =
     (if prefix fence_json s then dropWhile py_isspace (drop (length fence_json) s) else s)"

text \<open>
  \<^verbatim>\<open>re.sub(r"\s*```$", "", s)\<close>. The anchor matches at the end of the string and also
  just before a line feed that ends it. The leftmost match starts where the
  whitespace before the marker starts; nothing after it can match again.
\<close>

definition rstrip :: "str \<Rightarrow> str" where
  "rstrip s = rev (dropWhile py_isspace (rev s))"

definition sub_trailing_fence :: "str \<Rightarrow> str" where
  "sub_trailing_fence s =
     (if suffix fence s then rstrip (take (length s - length fence) s)
      else if suffix (fence @ [NEWLINE]) s
        then rstrip (take (length s - (length fence + 1)) s) @ [NEWLINE]
      else s)"

text \<open>
  \<^verbatim>\<open>re.sub(r'"\s*\+\s*"', '', s)\<close>. \<open>match_concat cs\<close> matches the pattern's rest after
  an opening quote and returns the text after the closing quote. Neither the plus
  sign nor the quote is whitespace, so the greedy runs never give a character back.
  The scan goes from the left; after a match it goes on behind the closing quote.
\<close>

definition match_concat :: "str \<Rightarrow> str option" where
  "match_concat cs =
     (case dropWhile py_isspace cs of
        [] \<Rightarrow> None
      | c # r \<Rightarrow>
          if c = PLUS then
            (case dropWhile py_isspace r of
               [] \<Rightarrow> None
             | d # t \<Rightarrow> if d = DQUOTE then Some t else None)
          else None)"

function sub_concat :: "str \<Rightarrow> str" where
  "sub_concat [] = []"
| "sub_concat (c # cs) =
     (if c = DQUOTE then
        (case match_concat cs of
           Some t \<Rightarrow> sub_concat t
         | None \<Rightarrow> c # sub_concat cs)
      else c # sub_concat cs)"
  by pat_completeness auto
termination
proof (relation "measure length")
  show "wf (measure length)" by simp
next
  fix c :: codepoint and cs t :: str
  assume "match_concat cs = Some t"
  then obtain r where r: "dropWhile py_isspace cs = PLUS # r"
    and t: "dropWhile py_isspace r = DQUOTE # t"
    by (auto simp: match_concat_def split: list.splits if_splits)
  have "length t < length (dropWhile py_isspace r)" using t by simp
  also have "\<dots> \<le> length r" by (rule length_dropWhile_le)
  also have "\<dots> < length (dropWhile py_isspace cs)" using r by simp
  also have "\<dots> \<le> length cs" by (rule length_dropWhile_le)
  finally show "(t, c # cs) \<in> measure length" by simp
qed auto

text \<open>
  \<^verbatim>\<open>has_concat s\<close>: the pattern of \<open>sub_concat\<close> matches somewhere in \<open>s\<close>
  (\<^verbatim>\<open>re.search\<close>).
\<close>

fun has_concat :: "str \<Rightarrow> bool" where
  "has_concat [] = False"
| "has_concat (c # cs) = ((c = DQUOTE \<and> match_concat cs \<noteq> None) \<or> has_concat cs)"

definition clean_ai_json :: "str option \<Rightarrow> str option" where
  "clean_ai_json ai_message =
     (case ai_message of
        None \<Rightarrow> None
      | Some m \<Rightarrow>
          if m = [] then None
          else
            let m1 = sub_leading_fence (strip m);
                m2 = sub_trailing_fence (strip m1);
                m3 = sub_concat m2;
                m4 = replace [BACKSLASH, DQUOTE] [DQUOTE]
                       (replace [BACKSLASH, LETTER_n] [NEWLINE] m3)
            in Some m4)"

text \<open>
  A text is clean when the sanitizer has nothing to do on it: it is not empty, has no
  whitespace at either end, no opening marker at its start, no closing marker at its
  end, no quote-plus-quote artifact and neither of the two escape sequences.
\<close>

definition is_clean :: "str \<Rightarrow> bool" where
  "is_clean t \<longleftrightarrow>
     t \<noteq> [] \<and> \<not> py_isspace (hd t) \<and> \<not> py_isspace (last t) \<and>
     \<not> prefix fence_json t \<and> \<not> suffix fence t \<and> \<not> has_concat t \<and>
     \<not> py_contains [BACKSLASH, LETTER_n] t \<and> \<not> py_contains [BACKSLASH, DQUOTE] t"

section \<open>The sanitizer under Python's run-time checks\<close>

text \<open>
  Python checks types when an operation runs. A value is \<^verbatim>\<open>None\<close>, a string or a
  list; \<^verbatim>\<open>not v\<close> holds for \<^verbatim>\<open>None\<close>, the empty string and the empty list. The
  methods \<^verbatim>\<open>strip\<close> and \<^verbatim>\<open>replace\<close> exist on strings only (\<^verbatim>\<open>AttributeError\<close>
  otherwise), and \<^verbatim>\<open>re.sub\<close> raises \<^verbatim>\<open>TypeError\<close> unless its third argument is a
  string. An exception ends the function: \<open>exn_bind\<close> passes it on.
\<close>

datatype pyvalue = PyNone | is_PyStr: PyStr str | PyList "pyvalue list"

datatype exn = AttributeError | TypeError

definition truthy :: "pyvalue \<Rightarrow> bool" where
  "truthy v = (case v of PyNone \<Rightarrow> False | PyStr s \<Rightarrow> s \<noteq> [] | PyList xs \<Rightarrow> xs \<noteq> [])"

definition exn_bind :: "exn + 'a \<Rightarrow> ('a \<Rightarrow> exn + 'b) \<Rightarrow> exn + 'b" where
  "exn_bind r f = (case r of Inl e \<Rightarrow> Inl e | Inr v \<Rightarrow> f v)"

definition method_strip :: "pyvalue \<Rightarrow> exn + pyvalue" where
  "method_strip v = (case v of PyStr s \<Rightarrow> Inr (PyStr (strip s)) | _ \<Rightarrow> Inl AttributeError)"

definition method_replace :: "str \<Rightarrow> str \<Rightarrow> pyvalue \<Rightarrow> exn + pyvalue" where
  "method_replace old new v =
     (case v of PyStr s \<Rightarrow> Inr (PyStr (replace old new s)) | _ \<Rightarrow> Inl AttributeError)"

text \<open>
  \<open>re_sub f v\<close> is \<^verbatim>\<open>re.sub(pattern, "", v)\<close> for one of the three patterns, \<open>f\<close> being
  what the substitution does to a string.
\<close>

definition re_sub :: "(str \<Rightarrow> str) \<Rightarrow> pyvalue \<Rightarrow> exn + pyvalue" where
  "re_sub f v = (case v of PyStr s \<Rightarrow> Inr (PyStr (f s)) | _ \<Rightarrow> Inl TypeError)"

text \<open>
  The body of \<^verbatim>\<open>clean_ai_json\<close>, statement by statement, on any value; every call
  in it can raise.
\<close>

definition clean_ai_json_checked :: "pyvalue \<Rightarrow> exn + pyvalue" where
  "clean_ai_json_checked ai_message =
     (if \<not> truthy ai_message then Inr PyNone
      else
        exn_bind (method_strip ai_message) (\<lambda>stripped.
        exn_bind (re_sub sub_leading_fence stripped) (\<lambda>m1.
        exn_bind (method_strip m1) (\<lambda>stripped1.
        exn_bind (re_sub sub_trailing_fence stripped1) (\<lambda>m2.
        exn_bind (re_sub sub_concat m2) (\<lambda>m3.
        exn_bind (method_replace [BACKSLASH, LETTER_n] [NEWLINE] m3) (\<lambda>m4.
        method_replace [BACKSLASH, DQUOTE] [DQUOTE] m4)))))))"

text \<open>An argument of the declared type: a string, or \<^verbatim>\<open>None\<close> for an absent one.\<close>

definition of_optional :: "str option \<Rightarrow> pyvalue" where
  "of_optional x = (case x of None \<Rightarrow> PyNone | Some s \<Rightarrow> PyStr s)"

section \<open>The request pipeline\<close>

record AnalysisRequest =
  recommendation_table :: str
  body_analysis_table :: str

text \<open>The returned dictionary: keys with their values, in the order of the literal.\<close>

type_synonym pydict = "(str \<times> pyvalue) list"

record HTTPException =
  status_code :: int
  detail :: str

text \<open>
  The completion service is outside the program. One pass through the \<^verbatim>\<open>try\<close> block
  either raises an \<^verbatim>\<open>Exception\<close> (\<open>Raises\<close> with its \<^verbatim>\<open>str\<close>) before \<^verbatim>\<open>ai_message\<close> is
  bound, or binds \<^verbatim>\<open>ai_message\<close> to the reply's \<^verbatim>\<open>content\<close>, an optional string. The
  service is a parameter \<open>groq\<close>: the outcome of the call made with the loop counter at
  \<open>attempt\<close> and the given user prompt.
\<close>

datatype outcome = Raises str | Content "str option"

text \<open>
  What the loop does to the world, in order: a pass through the \<^verbatim>\<open>try\<close> block with
  the prompt it builds, a printed line, a call of \<^verbatim>\<open>time.sleep\<close>.
\<close>

datatype event = is_Invoke: Invoke str | is_Print: Print str | is_Sleep: Sleep rat

definition main_prompt :: "str \<Rightarrow> str \<Rightarrow> str" where
  "main_prompt rec_table body_table =
     ustr ''Recommendation Table: '' @ rec_table @
     ustr ''\<newline>Body Analysis Table: '' @ body_table @
     ustr ''\<newline>***Return Your Response in JSON Format Only***\<newline>Analyze the data above and return a detailed fashion recommendation.\<newline>Return exactly the following fields:\<newline>- text_recommendations\<newline>- top_wear_search_engine_query\<newline>- bottom_wear_search_engine_query\<newline>- shoes_search_engine_query\<newline>- color_recommendations_search_engine_query\<newline>- color_combinations (array of 3-5 combinations)\<newline>''"

definition parsed_json :: pydict where
  "parsed_json =
     [(ustr ''text_recommendations'',
       PyStr (ustr ''Based on the provided height of 170.18 cm, the individual falls into the 167-174 cm height range. For tops, slim-fit or tailored shirts, V-neck sweaters, and layered outfits with proportions are recommended. For bottoms, tapered or straight-leg pants, mid-rise trousers, and neutral or solid colors are suggested. Low or mid-profile sneakers, desert boots, or loafers are ideal for shoes. Leather belts, medium-to-small backpacks, and simple watches or bracelets are suitable accessories. Earth tones or muted palettes with subtle patterns are recommended for color sense.'')),
      (ustr ''top_wear_search_engine_query'',
       PyStr (ustr ''slim fit tailored shirts for men V neck sweaters layered outfits'')),
      (ustr ''bottom_wear_search_engine_query'',
       PyStr (ustr ''tapered straight leg pants mid rise trousers neutral colors'')),
      (ustr ''shoes_search_engine_query'',
       PyStr (ustr ''low profile sneakers desert boots loafers for men'')),
      (ustr ''color_recommendations_search_engine_query'',
       PyStr (ustr ''earth tones muted palettes subtle patterns for men'')),
      (ustr ''color_combinations'',
       PyList
         [PyStr (ustr ''Navy blue with light brown and white''),
          PyStr (ustr ''Olive green with beige and gray''),
          PyStr (ustr ''Charcoal gray with navy blue and white''),
          PyStr (ustr ''Earth tone brown with olive green and beige''),
          PyStr (ustr ''Gray with navy blue and light brown'')])]"

text \<open>The line printed by the \<^verbatim>\<open>except\<close> branch, and the detail of the final error.\<close>

definition retry_message :: "int \<Rightarrow> str \<Rightarrow> str" where
  "retry_message attempt e =
     ustr ''Attempt '' @ str_int (attempt + 1) @ ustr '' failed: '' @ e @ ustr ''. Retrying...''"

definition failure_detail :: "str option \<Rightarrow> str" where
  "failure_detail last_response =
     ustr ''Failed after multiple retries. Last AI response: '' @ str_opt last_response"

text \<open>
  The \<^verbatim>\<open>while\<close> loop of \<^verbatim>\<open>process_rs_with_retry\<close>, from the state \<open>attempt\<close>,
  \<open>last_response\<close> and the events so far. A pass that binds \<^verbatim>\<open>ai_message\<close> stores it
  in \<^verbatim>\<open>last_response\<close>, computes \<^verbatim>\<open>cleaned\<close> and returns the fixed dictionary. A pass that
  raises prints, adds one to \<^verbatim>\<open>attempt\<close> and sleeps. When the loop ends the function
  raises \<^verbatim>\<open>HTTPException\<close> with status 500.
\<close>

function retry_loop ::
  "(int \<Rightarrow> str \<Rightarrow> outcome) \<Rightarrow> str \<Rightarrow> str \<Rightarrow> int \<Rightarrow> rat \<Rightarrow>
   int \<Rightarrow> str option \<Rightarrow> event list \<Rightarrow> (HTTPException + pydict) \<times> event list" where
  "retry_loop groq rec_table body_table retries delay
     attempt last_response tr =
     (if attempt < retries then
        (case groq attempt (main_prompt rec_table body_table) of
           Content ai_message \<Rightarrow>
             (let last_response = ai_message;
                  cleaned = clean_ai_json ai_message
              in (Inr parsed_json,
                  tr @ [Invoke (main_prompt rec_table body_table)]))
         | Raises e \<Rightarrow>
             retry_loop groq rec_table body_table retries delay
               (attempt + 1) last_response
               (tr @ [Invoke (main_prompt rec_table body_table),
                      Print (retry_message attempt e), Sleep delay]))
      else
        (Inl \<lparr>status_code = 500, detail = failure_detail last_response\<rparr>, tr))"
  by pat_completeness auto
termination
  by (relation "measure (\<lambda>(groq, rt, bt, retries, delay, attempt, last_response, tr).
        nat (retries - attempt))") auto

definition process_rs_with_retry ::
  "(int \<Rightarrow> str \<Rightarrow> outcome) \<Rightarrow> str \<Rightarrow> str \<Rightarrow> int \<Rightarrow> rat \<Rightarrow>
   (HTTPException + pydict) \<times> event list" where
  "process_rs_with_retry groq rec_table body_table retries delay =
     retry_loop groq rec_table body_table retries delay 0 None []"

text \<open>The endpoint \<^verbatim>\<open>POST /rseq-api-v2\<close>: the defaults \<^verbatim>\<open>retries=5\<close>, \<^verbatim>\<open>delay=2.0\<close>.\<close>

definition rs_engine ::
  "(int \<Rightarrow> str \<Rightarrow> outcome) \<Rightarrow> AnalysisRequest \<Rightarrow> (HTTPException + pydict) \<times> event list" where
  "rs_engine groq request =
     process_rs_with_retry groq (recommendation_table request) (body_analysis_table request) 5 2"

text \<open>
  The six fields of the response, as the specification lists them: five strings and
  the list \<^verbatim>\<open>color_combinations\<close>.
\<close>

definition string_keys :: "str list" where
  "string_keys = [ustr ''text_recommendations'', ustr ''top_wear_search_engine_query'',
     ustr ''bottom_wear_search_engine_query'', ustr ''shoes_search_engine_query'',
     ustr ''color_recommendations_search_engine_query'']"

definition six_keys :: "str list" where
  "six_keys = string_keys @ [ustr ''color_combinations'']"

text \<open>
  Two services and a request to run the pipeline on: one that answers every call,
  one that fails every call.
\<close>

definition groq_up :: "int \<Rightarrow> str \<Rightarrow> outcome" where
  "groq_up i p = Content (Some (ustr ''{}''))"

definition groq_down :: "int \<Rightarrow> str \<Rightarrow> outcome" where
  "groq_down i p = Raises (ustr ''down'')"

definition request_ab :: AnalysisRequest where
  "request_ab = \<lparr>recommendation_table = ustr ''a'', body_analysis_table = ustr ''b''\<rparr>"

section \<open>The sanitizer: auxiliary facts\<close>

declare replace.simps [simp del]

lemma replace_Nil: "old \<noteq> [] \<Longrightarrow> replace old new [] = []"
  by (subst replace.simps) simp

lemma replace_miss:
  "old \<noteq> [] \<Longrightarrow> \<not> prefix old (c # cs) \<Longrightarrow> replace old new (c # cs) = c # replace old new cs"
  by (subst replace.simps) simp

lemma replace_absent:
  "old \<noteq> [] \<Longrightarrow> \<not> py_contains old s \<Longrightarrow> replace old new s = s"
  by (induction s) (auto simp: replace_Nil replace_miss)

lemma replace2_hit: "replace [a, b] [c] (a # b # s) = c # replace [a, b] [c] s"
  by (subst replace.simps) simp

lemma replace2_miss:
  "\<not> (x = a \<and> prefix [b] xs) \<Longrightarrow> replace [a, b] [c] (x # xs) = x # replace [a, b] [c] xs"
  by (subst replace.simps) auto

lemma length_replace2: "length (replace [a, b] [c] s) \<le> length s"
proof (induction s rule: length_induct)
  case (1 s)
  show ?case
  proof (cases s)
    case Nil
    then show ?thesis by (simp add: replace_Nil)
  next
    case (Cons x xs)
    show ?thesis
    proof (cases "x = a \<and> prefix [b] xs")
      case True
      then obtain ys where ys: "xs = b # ys" by (cases xs) auto
      have "length (replace [a, b] [c] ys) \<le> length ys" using 1 Cons ys by simp
      then show ?thesis using Cons ys True by (simp add: replace2_hit)
    next
      case False
      have "length (replace [a, b] [c] xs) \<le> length xs" using 1 Cons by simp
      then show ?thesis using Cons False by (simp add: replace2_miss)
    qed
  qed
qed

lemma length_replace2_less:
  "py_contains [a, b] s \<Longrightarrow> length (replace [a, b] [c] s) < length s"
proof (induction s)
  case Nil
  then show ?case by simp
next
  case (Cons x xs)
  show ?case
  proof (cases "x = a \<and> prefix [b] xs")
    case True
    then obtain ys where ys: "xs = b # ys" by (cases xs) auto
    have "length (replace [a, b] [c] ys) \<le> length ys" by (rule length_replace2)
    then show ?thesis using ys True by (simp add: replace2_hit)
  next
    case False
    then have "py_contains [a, b] xs" using Cons.prems by auto
    then have "length (replace [a, b] [c] xs) < length xs" by (rule Cons.IH)
    then show ?thesis using False by (simp add: replace2_miss)
  qed
qed

lemma sub_concat_absent: "\<not> has_concat s \<Longrightarrow> sub_concat s = s"
  by (induction s) auto

lemma match_concat_length: "match_concat cs = Some t \<Longrightarrow> length t < length cs"
proof -
  assume "match_concat cs = Some t"
  then obtain r where r: "dropWhile py_isspace cs = PLUS # r"
    and t: "dropWhile py_isspace r = DQUOTE # t"
    by (auto simp: match_concat_def split: list.splits if_splits)
  have "length t < length (dropWhile py_isspace r)" using t by simp
  also have "\<dots> \<le> length r" by (rule length_dropWhile_le)
  also have "\<dots> < length (dropWhile py_isspace cs)" using r by simp
  also have "\<dots> \<le> length cs" by (rule length_dropWhile_le)
  finally show ?thesis .
qed

lemma length_sub_concat: "length (sub_concat s) \<le> length s"
proof (induction s rule: sub_concat.induct)
  case 1
  then show ?case by simp
next
  case (2 c cs)
  show ?case
  proof (cases "c = DQUOTE")
    case False
    then show ?thesis using 2 by simp
  next
    case True
    show ?thesis
    proof (cases "match_concat cs")
      case None
      then show ?thesis using 2 True by simp
    next
      case (Some t)
      have "length (sub_concat t) \<le> length t" using 2(2)[OF True Some] .
      moreover have "length t < length cs" using Some by (rule match_concat_length)
      ultimately show ?thesis using True Some by simp
    qed
  qed
qed

lemma length_sub_concat_less: "has_concat s \<Longrightarrow> length (sub_concat s) < length s"
proof (induction s)
  case Nil
  then show ?case by simp
next
  case (Cons c cs)
  show ?case
  proof (cases "c = DQUOTE \<and> match_concat cs \<noteq> None")
    case True
    then obtain t where t: "match_concat cs = Some t" by auto
    have "length (sub_concat t) \<le> length t" by (rule length_sub_concat)
    moreover have "length t < length cs" using t by (rule match_concat_length)
    ultimately show ?thesis using True t by simp
  next
    case False
    then have "has_concat cs" using Cons.prems by auto
    then have "length (sub_concat cs) < length cs" by (rule Cons.IH)
    then show ?thesis using False by auto
  qed
qed



lemma dropWhile_same_length:
  "length (dropWhile P xs) = length xs \<Longrightarrow> dropWhile P xs = xs"
proof (cases xs)
  case Nil
  then show ?thesis by simp
next
  case (Cons a list)
  assume len: "length (dropWhile P xs) = length xs"
  show ?thesis
  proof (cases "P a")
    case True
    have "length (dropWhile P list) \<le> length list" by (rule length_dropWhile_le)
    then show ?thesis using len Cons True by simp
  next
    case False
    then show ?thesis using Cons by simp
  qed
qed

lemma dropWhile_fix: "xs \<noteq> [] \<Longrightarrow> \<not> P (hd xs) \<Longrightarrow> dropWhile P xs = xs"
  by (cases xs) auto

lemma dropWhile_fix_hd: "dropWhile P xs = xs \<Longrightarrow> xs \<noteq> [] \<Longrightarrow> \<not> P (hd xs)"
  using hd_dropWhile[of P xs] by auto

lemma length_strip: "length (strip s) \<le> length s"
proof -
  have "length (strip s) \<le> length (dropWhile py_isspace s)"
    unfolding strip_def using length_dropWhile_le[of py_isspace "rev (dropWhile py_isspace s)"]
    by simp
  also have "\<dots> \<le> length s" by (rule length_dropWhile_le)
  finally show ?thesis .
qed

lemma strip_same_length:
  assumes "length (strip s) = length s"
  shows "strip s = s" and "s \<noteq> [] \<Longrightarrow> \<not> py_isspace (hd s) \<and> \<not> py_isspace (last s)"
proof -
  let ?d = "dropWhile py_isspace s"
  have a: "length (strip s) \<le> length ?d"
    unfolding strip_def using length_dropWhile_le[of py_isspace "rev ?d"] by simp
  have b: "length ?d \<le> length s" by (rule length_dropWhile_le)
  from a b assms have "length ?d = length s" by simp
  then have d: "?d = s" by (rule dropWhile_same_length)
  have "length (dropWhile py_isspace (rev s)) = length (rev s)"
    using assms d by (simp add: strip_def)
  then have r: "dropWhile py_isspace (rev s) = rev s" by (rule dropWhile_same_length)
  show "strip s = s" using d r by (simp add: strip_def)
  show "\<not> py_isspace (hd s) \<and> \<not> py_isspace (last s)" if "s \<noteq> []"
    using dropWhile_fix_hd[OF d that] dropWhile_fix_hd[OF r] that by (simp add: hd_rev)
qed

lemma strip_fix:
  "t \<noteq> [] \<Longrightarrow> \<not> py_isspace (hd t) \<Longrightarrow> \<not> py_isspace (last t) \<Longrightarrow> strip t = t"
  by (simp add: strip_def dropWhile_fix hd_rev)

lemma strip_ends:
  assumes "strip s \<noteq> []"
  shows "\<not> py_isspace (hd (strip s))" and "\<not> py_isspace (last (strip s))"
proof -
  let ?d = "dropWhile py_isspace s"
  let ?e = "dropWhile py_isspace (rev ?d)"
  have e: "?e \<noteq> []" using assms by (simp add: strip_def)
  then have "\<not> py_isspace (hd ?e)" by (rule hd_dropWhile)
  then show "\<not> py_isspace (last (strip s))" using e by (simp add: strip_def last_rev)
  have d: "?d \<noteq> []"
  proof
    assume "?d = []"
    then show False using e by (metis dropWhile.simps(1) rev.simps(1))
  qed
  then have hd: "\<not> py_isspace (hd ?d)" by (rule hd_dropWhile)
  have "hd (rev ?e) = hd ?d"
  proof -
    have "?d = rev ?e @ rev (takeWhile py_isspace (rev ?d))"
      by (metis rev_append rev_rev_ident takeWhile_dropWhile_id)
    then show ?thesis using e by (metis hd_append2 rev_is_Nil_conv)
  qed
  then show "\<not> py_isspace (hd (strip s))" using hd by (simp add: strip_def)
qed

lemma strip_strip: "strip (strip s) = strip s"
proof (cases "strip s = []")
  case True
  have "strip [] = []" by (simp add: strip_def)
  with True show ?thesis by simp
next
  case False
  then show ?thesis by (simp add: strip_fix strip_ends)
qed

lemma strip_surrounded:
  assumes "list_all py_isspace l" and "list_all py_isspace r"
  shows "strip (l @ m @ r) = strip m"
proof -
  have l: "dropWhile py_isspace (l @ m @ r) = dropWhile py_isspace (m @ r)"
    using assms(1) by (simp add: dropWhile_append2 list_all_iff)
  have r: "dropWhile py_isspace (rev r @ ys) = dropWhile py_isspace ys" for ys
    using assms(2) by (intro dropWhile_append2) (auto simp: list_all_iff)
  show ?thesis
  proof (cases "list_all py_isspace m")
    case True
    then have a: "dropWhile py_isspace (m @ r) = []" and b: "dropWhile py_isspace m = []"
      using assms(2) by (auto simp: list_all_iff)
    show ?thesis unfolding strip_def l a b ..
  next
    case False
    then have "dropWhile py_isspace (m @ r) = dropWhile py_isspace m @ r"
      by (auto simp: list_all_iff dropWhile_append1)
    then show ?thesis using l r by (simp add: strip_def)
  qed
qed


lemma length_fence [simp]: "length fence = 3" "length fence_json = 7"
  by (simp_all add: fence_def fence_json_def ustr_def)

lemma length_sub_leading_fence: "length (sub_leading_fence s) \<le> length s"
  using length_dropWhile_le[of py_isspace "drop 7 s"]
  by (auto simp: sub_leading_fence_def)

lemma sub_leading_fence_less:
  assumes "prefix fence_json s"
  shows "length (sub_leading_fence s) < length s"
proof -
  have "7 \<le> length s" using prefix_length_le[OF assms] by simp
  then show ?thesis
    using assms length_dropWhile_le[of py_isspace "drop 7 s"]
    by (simp add: sub_leading_fence_def)
qed

lemma length_rstrip: "length (rstrip s) \<le> length s"
  using length_dropWhile_le[of py_isspace "rev s"] by (simp add: rstrip_def)

lemma sub_trailing_fence_less:
  assumes "suffix fence s \<or> suffix (fence @ [NEWLINE]) s"
  shows "length (sub_trailing_fence s) < length s"
proof (cases "suffix fence s")
  case True
  then have "3 \<le> length s" using suffix_length_le[OF True] by simp
  then show ?thesis
    using True length_rstrip[of "take (length s - 3) s"] by (simp add: sub_trailing_fence_def)
next
  case False
  then have n: "suffix (fence @ [NEWLINE]) s" using assms by simp
  then have "4 \<le> length s" using suffix_length_le[OF n] by simp
  then show ?thesis
    using False n length_rstrip[of "take (length s - 4) s"]
    by (simp add: sub_trailing_fence_def)
qed

lemma length_sub_trailing_fence: "length (sub_trailing_fence s) \<le> length s"
proof (cases "suffix fence s \<or> suffix (fence @ [NEWLINE]) s")
  case True
  then show ?thesis using sub_trailing_fence_less[of s] by simp
next
  case False
  then show ?thesis by (simp add: sub_trailing_fence_def)
qed

lemma not_newline_suffix:
  assumes "t \<noteq> []" and "\<not> py_isspace (last t)"
  shows "\<not> suffix (fence @ [NEWLINE]) t"
proof
  assume "suffix (fence @ [NEWLINE]) t"
  then obtain zs where "t = zs @ fence @ [NEWLINE]" by (auto simp: suffix_def)
  then have "last t = NEWLINE" by simp
  then show False using assms(2) by (simp add: py_isspace_def)
qed

lemma clean_fix:
  assumes "is_clean t"
  shows "clean_ai_json (Some t) = Some t"
proof -
  from assms have ne: "t \<noteq> []" and h: "\<not> py_isspace (hd t)" and l: "\<not> py_isspace (last t)"
    and p: "\<not> prefix fence_json t" and s: "\<not> suffix fence t" and c: "\<not> has_concat t"
    and n: "\<not> py_contains [BACKSLASH, LETTER_n] t" and q: "\<not> py_contains [BACKSLASH, DQUOTE] t"
    by (simp_all add: is_clean_def)
  have st: "strip t = t" using ne h l by (rule strip_fix)
  have lead: "sub_leading_fence t = t" using p by (simp add: sub_leading_fence_def)
  have trail: "sub_trailing_fence t = t"
    using s not_newline_suffix[OF ne l] by (simp add: sub_trailing_fence_def)
  have conc: "sub_concat t = t" using c by (rule sub_concat_absent)
  have r1: "replace [BACKSLASH, LETTER_n] [NEWLINE] t = t" using n by (simp add: replace_absent)
  have r2: "replace [BACKSLASH, DQUOTE] [DQUOTE] t = t" using q by (simp add: replace_absent)
  show ?thesis using ne by (simp add: clean_ai_json_def st lead trail conc r1 r2)
qed

lemma clean_fix_conv:
  assumes "clean_ai_json (Some t) = Some t"
  shows "is_clean t"
proof -
  define m0 where "m0 = strip t"
  define m1 where "m1 = sub_leading_fence m0"
  define m1' where "m1' = strip m1"
  define m2 where "m2 = sub_trailing_fence m1'"
  define m3 where "m3 = sub_concat m2"
  define m4 where "m4 = replace [BACKSLASH, LETTER_n] [NEWLINE] m3"
  define m5 where "m5 = replace [BACKSLASH, DQUOTE] [DQUOTE] m4"
  have ne: "t \<noteq> []" using assms by (auto simp: clean_ai_json_def)
  then have e: "m5 = t"
    using assms by (simp add: clean_ai_json_def m0_def m1_def m1'_def m2_def m3_def m4_def m5_def)
  have l0: "length m0 \<le> length t" unfolding m0_def by (rule length_strip)
  have l1: "length m1 \<le> length m0" unfolding m1_def by (rule length_sub_leading_fence)
  have l1': "length m1' \<le> length m1" unfolding m1'_def by (rule length_strip)
  have l2: "length m2 \<le> length m1'" unfolding m2_def by (rule length_sub_trailing_fence)
  have l3: "length m3 \<le> length m2" unfolding m3_def by (rule length_sub_concat)
  have l4: "length m4 \<le> length m3" unfolding m4_def by (rule length_replace2)
  have l5: "length m5 \<le> length m4" unfolding m5_def by (rule length_replace2)
  have l: "length m5 = length t" using e by simp
  from l l0 l1 l1' l2 l3 l4 l5 have eqs:
    "length m0 = length t" "length m1 = length m0" "length m1' = length m1"
    "length m2 = length m1'" "length m3 = length m2" "length m4 = length m3"
    "length m5 = length m4"
    by simp_all
  have s0: "m0 = t" and ends: "\<not> py_isspace (hd t) \<and> \<not> py_isspace (last t)"
    using strip_same_length[of t] eqs(1) ne by (simp_all add: m0_def)
  have p: "\<not> prefix fence_json t"
    using sub_leading_fence_less[of t] eqs(2) by (auto simp: m1_def s0)
  then have s1: "m1 = t" by (simp add: m1_def s0 sub_leading_fence_def)
  have s1': "m1' = t" using s0 by (simp add: m1'_def s1 m0_def)
  have s: "\<not> (suffix fence t \<or> suffix (fence @ [NEWLINE]) t)"
    using sub_trailing_fence_less[of t] eqs(4) by (auto simp: m2_def s1')
  then have s2: "m2 = t" by (simp add: m2_def s1' sub_trailing_fence_def)
  have c: "\<not> has_concat t"
    using length_sub_concat_less[of t] eqs(5) by (auto simp: m3_def s2)
  then have s3: "m3 = t" by (simp add: m3_def s2 sub_concat_absent)
  have n: "\<not> py_contains [BACKSLASH, LETTER_n] t"
    using length_replace2_less[of BACKSLASH LETTER_n t NEWLINE] eqs(6) by (auto simp: m4_def s3)
  then have s4: "m4 = t" by (simp add: m4_def s3 replace_absent)
  have q: "\<not> py_contains [BACKSLASH, DQUOTE] t"
    using length_replace2_less[of BACKSLASH DQUOTE t DQUOTE] eqs(7) by (auto simp: m5_def s4)
  show ?thesis using ne ends p s c n q by (simp add: is_clean_def)
qed

lemmas eval_simps = clean_ai_json_def ustr_def strip_def rstrip_def sub_leading_fence_def
  sub_trailing_fence_def fence_def fence_json_def py_isspace_def suffix_to_prefix
  match_concat_def replace_Nil replace2_hit replace2_miss


lemma not_space_special [simp]: "\<not> py_isspace DQUOTE" "\<not> py_isspace PLUS"
  by (simp_all add: py_isspace_def)




lemma hello_clean: "is_clean (ustr ''hello'')"
  by (simp add: is_clean_def eval_simps)

lemma clean_ai_json_checked_raises:
  "clean_ai_json_checked (PyList [PyNone]) = Inl AttributeError"
  by (simp add: clean_ai_json_checked_def truthy_def exn_bind_def method_strip_def)

section \<open>The sanitizer: claims\<close>

text \<open>
  C6. On the text made of the opening marker with \<^verbatim>\<open>json\<close>, a line feed, the body
  \<^verbatim>\<open>{"a": "x" + "y"}\<close>, a line feed and the closing marker, the sanitizer returns
  \<^verbatim>\<open>{"a": "xy"}\<close>: both markers are removed and the quote-plus-quote artifact is
  collapsed.
\<close>

theorem clean_ai_json_crafted:
  \<open>clean_ai_json (Some (ustr ''```json\<newline>{"a": "x" + "y"}\<newline>```''))
     = Some (ustr ''{"a": "xy"}'')\<close>
  by (simp add: eval_simps)

text \<open>
  C7, as stated, fails. On the text backslash, quote, \<^verbatim>\<open>value\<close>, backslash, backslash,
  \<^verbatim>\<open>n\<close>, \<^verbatim>\<open>line2\<close>, backslash, quote the sanitizer does not return quote, \<^verbatim>\<open>value\<close>,
  line feed, \<^verbatim>\<open>line2\<close>, quote.
\<close>

theorem clean_ai_json_escape_claimed_fails:
  \<open>clean_ai_json (Some ([BACKSLASH] @ ustr ''"value'' @ [BACKSLASH, BACKSLASH, LETTER_n] @ ustr ''line2''
       @ [BACKSLASH] @ ustr ''"''))
     \<noteq> Some (ustr ''"value\<newline>line2"'')\<close>
  by (simp add: eval_simps)

text \<open>
  C7, amended. \<^verbatim>\<open>replace\<close> rewrites the two characters backslash and \<^verbatim>\<open>n\<close>; of a
  doubled backslash the first one stays. On the text of the claim the sanitizer
  returns quote, \<^verbatim>\<open>value\<close>, backslash, line feed, \<^verbatim>\<open>line2\<close>, quote. With a single
  backslash before the \<^verbatim>\<open>n\<close> it returns quote, \<^verbatim>\<open>value\<close>, line feed, \<^verbatim>\<open>line2\<close>, quote.
\<close>

theorem clean_ai_json_escape:
  \<open>clean_ai_json (Some ([BACKSLASH] @ ustr ''"value'' @ [BACKSLASH, BACKSLASH, LETTER_n] @ ustr ''line2''
       @ [BACKSLASH] @ ustr ''"''))
     = Some (ustr ''"value'' @ [BACKSLASH, NEWLINE] @ ustr ''line2"'') \<and>
   clean_ai_json (Some ([BACKSLASH] @ ustr ''"value'' @ [BACKSLASH, LETTER_n] @ ustr ''line2''
       @ [BACKSLASH] @ ustr ''"''))
     = Some (ustr ''"value\<newline>line2"'')\<close>
  by (simp add: eval_simps)

text \<open>
  C5, as stated, fails. The sanitizer applied to the three characters \<^verbatim>\<open>a\<close>, backslash,
  \<^verbatim>\<open>n\<close> returns \<^verbatim>\<open>a\<close> and a line feed; applied to that, it trims the line feed.
\<close>

theorem clean_ai_json_not_idempotent:
  "clean_ai_json (clean_ai_json (Some (ustr ''a'' @ [BACKSLASH, LETTER_n])))
     \<noteq> clean_ai_json (Some (ustr ''a'' @ [BACKSLASH, LETTER_n]))"
  by (simp add: eval_simps)

text \<open>
  C5, amended. A second application of the sanitizer returns the result of the first
  exactly when that result is absent or clean. In particular the sanitizer leaves
  every clean text as it is, and no other text.
\<close>

theorem clean_ai_json_idempotent_iff_clean:
  "clean_ai_json (clean_ai_json x) = clean_ai_json x \<longleftrightarrow>
     (case clean_ai_json x of None \<Rightarrow> True | Some t \<Rightarrow> is_clean t)"
proof (cases "clean_ai_json x")
  case None
  then show ?thesis by (simp add: clean_ai_json_def)
next
  case (Some t)
  then show ?thesis using clean_fix[of t] clean_fix_conv[of t] by auto
qed

theorem clean_ai_json_idempotent_hello:
  "clean_ai_json (Some (ustr ''  hello  '')) = Some (ustr ''hello'') \<and>
   is_clean (ustr ''hello'') \<and>
   clean_ai_json (clean_ai_json (Some (ustr ''  hello  ''))) = clean_ai_json (Some (ustr ''  hello  ''))"
proof -
  have a: "clean_ai_json (Some (ustr ''  hello  '')) = Some (ustr ''hello'')"
    by (simp add: eval_simps)
  show ?thesis
    using clean_ai_json_idempotent_iff_clean[of "Some (ustr ''  hello  '')"] a hello_clean
    by simp
qed

text \<open>
  C8. The sanitizer never raises on an argument of its declared type. Run with
  Python's checks, where \<^verbatim>\<open>strip\<close>, \<^verbatim>\<open>replace\<close> and \<^verbatim>\<open>re.sub\<close> raise on anything that
  is not a string, the body returns normally on \<^verbatim>\<open>None\<close> and on every string: each
  of the seven calls receives a string and hands a string on, and the two scans
  (\<open>sub_concat\<close>, \<open>replace\<close>) terminate. It returns \<^verbatim>\<open>None\<close> for \<^verbatim>\<open>None\<close> and for the
  empty string, and for these only; for every other string it returns the string the
  seven calls produce. (On a non-empty list the body does raise, see
  \<open>clean_ai_json_checked_raises\<close>: the error branches are live.)
\<close>

theorem clean_ai_json_total:
  "clean_ai_json_checked PyNone = Inr PyNone \<and>
   clean_ai_json_checked (PyStr []) = Inr PyNone \<and>
   clean_ai_json_checked (PyStr (c # cs)) =
     Inr (PyStr (replace [BACKSLASH, DQUOTE] [DQUOTE]
                  (replace [BACKSLASH, LETTER_n] [NEWLINE]
                    (sub_concat
                      (sub_trailing_fence (strip (sub_leading_fence (strip (c # cs))))))))) \<and>
   clean_ai_json_checked (of_optional x) = Inr (of_optional (clean_ai_json x)) \<and>
   (clean_ai_json x = None \<longleftrightarrow> x = None \<or> x = Some [])"
proof -
  have n: "clean_ai_json_checked PyNone = Inr PyNone"
    by (simp add: clean_ai_json_checked_def truthy_def)
  have e: "clean_ai_json_checked (PyStr []) = Inr PyNone"
    by (simp add: clean_ai_json_checked_def truthy_def)
  have s: "clean_ai_json_checked (PyStr m) =
     Inr (PyStr (replace [BACKSLASH, DQUOTE] [DQUOTE]
                  (replace [BACKSLASH, LETTER_n] [NEWLINE]
                    (sub_concat (sub_trailing_fence (strip (sub_leading_fence (strip m))))))))"
    if "m \<noteq> []" for m
    using that
    by (simp add: clean_ai_json_checked_def truthy_def exn_bind_def method_strip_def
        re_sub_def method_replace_def)
  have o: "clean_ai_json_checked (of_optional x) = Inr (of_optional (clean_ai_json x))"
  proof (cases x)
    case None
    then show ?thesis using n by (simp add: of_optional_def clean_ai_json_def)
  next
    case (Some m)
    show ?thesis
    proof (cases "m = []")
      case True
      then show ?thesis using Some e by (simp add: of_optional_def clean_ai_json_def)
    next
      case False
      then show ?thesis using Some s[OF False] by (simp add: of_optional_def clean_ai_json_def)
    qed
  qed
  have z: "clean_ai_json x = None \<longleftrightarrow> x = None \<or> x = Some []"
    by (cases x) (auto simp: clean_ai_json_def Let_def)
  show ?thesis using n e s[of "c # cs"] o z by simp
qed

text \<open>
  C9, as stated, fails. The text the sanitizer returns can end or begin with
  whitespace: for \<^verbatim>\<open>a\<close>, backslash, \<^verbatim>\<open>n\<close> it returns \<^verbatim>\<open>a\<close> and a line feed, written for
  the escape sequence after the trimming; for \<^verbatim>\<open>"+" x\<close> it returns a blank and \<^verbatim>\<open>x\<close>,
  the blank left behind the collapsed artifact.
\<close>

theorem clean_ai_json_result_not_trimmed:
  \<open>clean_ai_json (Some (ustr ''a'' @ [BACKSLASH, LETTER_n])) = Some (ustr ''a\<newline>'') \<and>
   py_isspace (last (ustr ''a\<newline>'')) \<and>
   clean_ai_json (Some (ustr ''"+" x'')) = Some (ustr '' x'') \<and>
   py_isspace (hd (ustr '' x''))\<close>
  by (simp add: eval_simps)

text \<open>
  C9, amended. The sanitizer removes the whitespace around its input, with or
  without markers: for a non-empty text \<open>m\<close> between two runs of whitespace the result
  is the result for \<open>m\<close> alone; it is \<open>m\<close> itself when \<open>m\<close> is clean, and the empty
  string when \<open>m\<close> is whitespace too. Nothing is said of the ends of the result when
  \<open>m\<close> is not clean.
\<close>

theorem clean_ai_json_trims:
  assumes "list_all py_isspace l" and "list_all py_isspace r" and "m \<noteq> []"
  shows "clean_ai_json (Some (l @ m @ r)) = clean_ai_json (Some m) \<and>
         (is_clean m \<longrightarrow> clean_ai_json (Some (l @ m @ r)) = Some m) \<and>
         (list_all py_isspace m \<longrightarrow> clean_ai_json (Some (l @ m @ r)) = Some [])"
proof -
  have e: "clean_ai_json (Some (l @ m @ r)) = clean_ai_json (Some m)"
    using assms(3) by (simp add: clean_ai_json_def strip_surrounded[OF assms(1,2)])
  have w: "clean_ai_json (Some m) = Some []" if "list_all py_isspace m"
  proof -
    have d: "dropWhile py_isspace m = []" using that by (simp add: list_all_iff)
    have "strip m = []" unfolding strip_def d by simp
    moreover have "strip [] = []" by (simp add: strip_def)
    moreover have "sub_leading_fence [] = []"
      by (simp add: sub_leading_fence_def fence_json_def ustr_def)
    moreover have "sub_trailing_fence [] = []"
      by (simp add: sub_trailing_fence_def fence_def ustr_def suffix_to_prefix)
    ultimately show ?thesis using assms(3) by (simp add: clean_ai_json_def replace_Nil)
  qed
  show ?thesis using e w by (simp add: clean_fix)
qed

theorem clean_ai_json_trims_hello:
  "list_all py_isspace (ustr ''  '') \<and> ustr ''hello'' \<noteq> [] \<and> is_clean (ustr ''hello'') \<and>
   clean_ai_json (Some (ustr ''  hello  '')) = Some (ustr ''hello'')"
proof -
  have s: "list_all py_isspace (ustr ''  '')" by (simp add: ustr_def py_isspace_def)
  have n: "ustr ''hello'' \<noteq> []" by (simp add: ustr_def)
  have e: "ustr ''  '' @ ustr ''hello'' @ ustr ''  '' = ustr ''  hello  ''" by (simp add: ustr_def)
  have "clean_ai_json (Some (ustr ''  hello  '')) = Some (ustr ''hello'')"
    using clean_ai_json_trims[OF s s n] hello_clean unfolding e by blast
  then show ?thesis using s n hello_clean by blast
qed



section \<open>The request pipeline: auxiliary facts\<close>

declare retry_loop.simps [simp del]

lemma retry_loop_all_raise:
  assumes "\<forall>i. attempt \<le> i \<and> i < retries \<longrightarrow> groq i (main_prompt rt bt) = Raises (e i)"
  shows "retry_loop groq rt bt retries delay attempt last_response tr =
     (Inl \<lparr>status_code = 500, detail = failure_detail last_response\<rparr>,
      tr @ concat (map (\<lambda>i. [Invoke (main_prompt rt bt), Print (retry_message i (e i)), Sleep delay])
                     [attempt..retries - 1]))"
  using assms
proof (induction groq rt bt retries delay attempt last_response tr rule: retry_loop.induct)
  case (1 groq rt bt retries delay attempt last_response tr)
  show ?case
  proof (cases "attempt < retries")
    case False
    then show ?thesis by (subst retry_loop.simps) simp
  next
    case True
    then have r: "groq attempt (main_prompt rt bt) = Raises (e attempt)" using "1.prems" by simp
    have u: "[attempt..retries - 1] = attempt # [attempt + 1..retries - 1]"
      using True by (simp add: upto_rec1)
    have "\<forall>i. attempt + 1 \<le> i \<and> i < retries \<longrightarrow> groq i (main_prompt rt bt) = Raises (e i)"
      using "1.prems" by simp
    then show ?thesis
      using "1.IH"[OF True r] True r u by (subst retry_loop.simps) simp
  qed
qed

lemma retry_loop_some_content:
  assumes "attempt \<le> k" and "k < retries" and "groq k (main_prompt rt bt) = Content reply"
  shows "fst (retry_loop groq rt bt retries delay attempt last_response tr) = Inr parsed_json"
  using assms
proof (induction groq rt bt retries delay attempt last_response tr rule: retry_loop.induct)
  case (1 groq rt bt retries delay attempt last_response tr)
  then have lt: "attempt < retries" by simp
  show ?case
  proof (cases "groq attempt (main_prompt rt bt)")
    case (Content ai_message)
    then show ?thesis using lt by (subst retry_loop.simps) (simp add: Let_def)
  next
    case (Raises m)
    then have "k \<noteq> attempt" using "1.prems"(3) by auto
    then have "attempt + 1 \<le> k" using "1.prems"(1) by simp
    then show ?thesis
      using "1.IH"[OF lt Raises _ "1.prems"(2,3)] lt Raises by (subst retry_loop.simps) simp
  qed
qed

lemma retry_loop_Inr:
  "fst (retry_loop groq rt bt retries delay attempt last_response tr) = Inr d \<Longrightarrow> d = parsed_json"
proof (induction groq rt bt retries delay attempt last_response tr rule: retry_loop.induct)
  case (1 groq rt bt retries delay attempt last_response tr)
  show ?case
  proof (cases "attempt < retries")
    case False
    then show ?thesis using "1.prems" by (subst (asm) retry_loop.simps) simp
  next
    case True
    show ?thesis
    proof (cases "groq attempt (main_prompt rt bt)")
      case (Content ai_message)
      then show ?thesis using "1.prems" True by (subst (asm) retry_loop.simps) (simp add: Let_def)
    next
      case (Raises m)
      have "fst (retry_loop groq rt bt retries delay (attempt + 1) last_response
           (tr @ [Invoke (main_prompt rt bt), Print (retry_message attempt m), Sleep delay])) = Inr d"
        using "1.prems" True Raises by (subst (asm) retry_loop.simps) simp
      then show ?thesis using "1.IH"[OF True Raises] by simp
    qed
  qed
qed

lemma retry_loop_Inl:
  assumes "fst (retry_loop groq rt bt retries delay attempt last_response tr) = Inl x"
  shows "x = \<lparr>status_code = 500, detail = failure_detail last_response\<rparr> \<and>
         (\<forall>i. attempt \<le> i \<and> i < retries \<longrightarrow> (\<exists>m. groq i (main_prompt rt bt) = Raises m))"
  using assms
proof (induction groq rt bt retries delay attempt last_response tr rule: retry_loop.induct)
  case (1 groq rt bt retries delay attempt last_response tr)
  show ?case
  proof (cases "attempt < retries")
    case False
    then show ?thesis using "1.prems" by (subst (asm) retry_loop.simps) auto
  next
    case True
    show ?thesis
    proof (cases "groq attempt (main_prompt rt bt)")
      case (Content ai_message)
      then show ?thesis using "1.prems" True by (subst (asm) retry_loop.simps) (simp add: Let_def)
    next
      case (Raises m)
      have "fst (retry_loop groq rt bt retries delay (attempt + 1) last_response
           (tr @ [Invoke (main_prompt rt bt), Print (retry_message attempt m), Sleep delay])) = Inl x"
        using "1.prems" True Raises by (subst (asm) retry_loop.simps) simp
      then have ih: "x = \<lparr>status_code = 500, detail = failure_detail last_response\<rparr> \<and>
         (\<forall>i. attempt + 1 \<le> i \<and> i < retries \<longrightarrow> (\<exists>m. groq i (main_prompt rt bt) = Raises m))"
        using "1.IH"[OF True Raises] by simp
      have "\<exists>m. groq i (main_prompt rt bt) = Raises m" if "attempt \<le> i \<and> i < retries" for i
      proof (cases "i = attempt")
        case True
        then show ?thesis using Raises by simp
      next
        case False
        then have "attempt + 1 \<le> i \<and> i < retries" using that by simp
        then show ?thesis using ih by blast
      qed
      then show ?thesis using ih by blast
    qed
  qed
qed

lemma upto_0_4: "[0..4] = [0, 1, 2, 3, 4::int]"
  by (simp add: upto_rec1)

lemma parsed_json_fields:
  "map fst parsed_json = six_keys \<and> distinct six_keys \<and>
   list_all (\<lambda>kv. snd kv \<noteq> PyNone) parsed_json \<and>
   list_all (\<lambda>k. \<exists>s. map_of parsed_json k = Some (PyStr s)) string_keys \<and>
   (\<exists>cs. map_of parsed_json (ustr ''color_combinations'') = Some (PyList cs) \<and>
      3 \<le> length cs \<and> length cs \<le> 5 \<and> list_all is_PyStr cs)"
proof -
  have k: "map fst parsed_json = six_keys"
    by (simp add: parsed_json_def six_keys_def string_keys_def)
  have d: "distinct six_keys" by (simp add: six_keys_def string_keys_def ustr_def)
  have n: "list_all (\<lambda>kv. snd kv \<noteq> PyNone) parsed_json" by (simp add: parsed_json_def)
  have s: "list_all (\<lambda>k. \<exists>s. map_of parsed_json k = Some (PyStr s)) string_keys"
    by (simp add: parsed_json_def string_keys_def ustr_def)
  have c: "\<exists>cs. map_of parsed_json (ustr ''color_combinations'') = Some (PyList cs) \<and>
      3 \<le> length cs \<and> length cs \<le> 5 \<and> list_all is_PyStr cs"
    by (simp add: parsed_json_def ustr_def)
  show ?thesis using k d n s c by blast
qed

lemma rs_engine_up: "fst (rs_engine groq_up request_ab) = Inr parsed_json"
  by (simp add: rs_engine_def process_rs_with_retry_def retry_loop.simps groq_up_def)

lemma rs_engine_down: "fst (rs_engine groq_down request_ab)
   = Inl \<lparr>status_code = 500, detail = failure_detail None\<rparr>"
  by (simp add: rs_engine_def process_rs_with_retry_def retry_loop.simps groq_down_def)

lemma retry_loop_down:
  "fst (retry_loop groq_down rt bt 5 delay 3 last_response tr) =
     Inl \<lparr>status_code = 500, detail = failure_detail last_response\<rparr>"
  by (simp add: retry_loop.simps groq_down_def)

section \<open>The request pipeline: claims\<close>

text \<open>
  C1. Whenever some attempt of the five binds \<^verbatim>\<open>ai_message\<close> (the call completes
  without raising), the endpoint returns the fixed dictionary \<open>parsed_json\<close>, whatever
  the reply, the service and the two tables of the request are. The sanitized reply is
  bound to \<^verbatim>\<open>cleaned\<close> and not used.
\<close>

theorem rs_engine_returns_canonical:
  assumes "0 \<le> i" and "i < 5"
    and "groq i (main_prompt (recommendation_table request) (body_analysis_table request))
           = Content reply"
  shows "fst (rs_engine groq request) = Inr parsed_json"
  unfolding rs_engine_def process_rs_with_retry_def
  using assms by (rule retry_loop_some_content)

theorem rs_engine_returns_canonical_after_failures:
  "fst (rs_engine
          (\<lambda>i p. if i < 2 then Raises (ustr ''timeout'') else Content (Some (ustr ''no json'')))
          request_ab) = Inr parsed_json"
  by (rule rs_engine_returns_canonical[of 2]) simp_all

text \<open>
  C2. Every dictionary the endpoint returns has exactly the six fields, none of them
  \<^verbatim>\<open>None\<close>: five strings, and under \<^verbatim>\<open>color_combinations\<close> a list of three to five
  strings.
\<close>

theorem rs_engine_success_has_six_fields:
  assumes "fst (rs_engine groq request) = Inr d"
  shows "map fst d = six_keys \<and> distinct six_keys \<and>
   list_all (\<lambda>kv. snd kv \<noteq> PyNone) d \<and>
   list_all (\<lambda>k. \<exists>s. map_of d k = Some (PyStr s)) string_keys \<and>
   (\<exists>cs. map_of d (ustr ''color_combinations'') = Some (PyList cs) \<and>
      3 \<le> length cs \<and> length cs \<le> 5 \<and> list_all is_PyStr cs)"
proof -
  have e: "d = parsed_json"
    using assms unfolding rs_engine_def process_rs_with_retry_def by (rule retry_loop_Inr)
  show ?thesis unfolding e by (rule parsed_json_fields)
qed

theorem rs_engine_success_has_six_fields_up:
  "fst (rs_engine groq_up request_ab) = Inr parsed_json \<and>
   map fst parsed_json = six_keys \<and>
   (\<exists>cs. map_of parsed_json (ustr ''color_combinations'') = Some (PyList cs) \<and>
      3 \<le> length cs \<and> length cs \<le> 5 \<and> list_all is_PyStr cs)"
  using rs_engine_success_has_six_fields[OF rs_engine_up] rs_engine_up by blast

text \<open>
  C3, as stated, fails. With a service that fails every call, the endpoint makes five
  calls and sleeps five times, not four: the last event before the error is a sleep.
\<close>

theorem retry_sleeps_not_four:
  "length (filter is_Invoke (snd (rs_engine groq_down request_ab))) = 5 \<and>
   length (filter is_Sleep (snd (rs_engine groq_down request_ab))) \<noteq> 4 \<and>
   last (snd (rs_engine groq_down request_ab)) = Sleep 2"
  by (simp add: rs_engine_def process_rs_with_retry_def retry_loop.simps groq_down_def)

text \<open>
  C3, amended. If the call raises on each of the five attempts, the loop makes exactly
  five calls, prints and sleeps the fixed delay after every one of them, the last
  included (five sleeps), and then raises the error with status 500.
\<close>

theorem retry_exhausted_five_sleeps:
  assumes "\<forall>i. 0 \<le> i \<and> i < 5 \<longrightarrow> groq i (main_prompt rt bt) = Raises (e i)"
  shows "process_rs_with_retry groq rt bt 5 delay =
     (Inl \<lparr>status_code = 500, detail = failure_detail None\<rparr>,
      concat (map (\<lambda>i. [Invoke (main_prompt rt bt), Print (retry_message i (e i)), Sleep delay])
                [0, 1, 2, 3, 4])) \<and>
   length (filter is_Invoke (snd (process_rs_with_retry groq rt bt 5 delay))) = 5 \<and>
   length (filter is_Sleep (snd (process_rs_with_retry groq rt bt 5 delay))) = 5"
proof -
  have "process_rs_with_retry groq rt bt 5 delay =
     (Inl \<lparr>status_code = 500, detail = failure_detail None\<rparr>,
      concat (map (\<lambda>i. [Invoke (main_prompt rt bt), Print (retry_message i (e i)), Sleep delay])
                [0, 1, 2, 3, 4]))"
    using retry_loop_all_raise[of 0 5 groq rt bt e delay None "[]"] assms upto_0_4
    by (simp add: process_rs_with_retry_def)
  then show ?thesis by simp
qed

theorem retry_exhausted_five_sleeps_down:
  "fst (rs_engine groq_down request_ab) = Inl \<lparr>status_code = 500, detail = failure_detail None\<rparr> \<and>
   length (filter is_Invoke (snd (rs_engine groq_down request_ab))) = 5 \<and>
   length (filter is_Sleep (snd (rs_engine groq_down request_ab))) = 5"
  using retry_exhausted_five_sleeps[of groq_down "ustr ''a''" "ustr ''b''" "\<lambda>i. ustr ''down''" 2]
  by (simp add: rs_engine_def request_ab_def groq_down_def)

text \<open>
  C4. When the loop ends without a reply, from whatever state it was in, the error
  has status 500 and its detail is the reason \<^verbatim>\<open>Failed after multiple retries.\<close>
  followed by the text held in \<^verbatim>\<open>last_response\<close>, or by \<^verbatim>\<open>None\<close> when it holds none; the
  passes in between all raised and did not change it. The endpoint starts the loop
  with \<^verbatim>\<open>last_response = None\<close>, and a pass that binds a reply returns: a request that
  fails has had no reply on any of its five attempts, and its detail ends in \<^verbatim>\<open>None\<close>.
\<close>

theorem rs_engine_exhausted_detail:
  "(fst (retry_loop groq rt bt retries delay attempt last_response tr) = Inl y \<longrightarrow>
      status_code y = 500 \<and>
      detail y = ustr ''Failed after multiple retries. Last AI response: '' @
                 (case last_response of None \<Rightarrow> ustr ''None'' | Some text \<Rightarrow> text) \<and>
      (\<forall>i. attempt \<le> i \<and> i < retries \<longrightarrow> (\<exists>m. groq i (main_prompt rt bt) = Raises m))) \<and>
   (fst (rs_engine groq request) = Inl x \<longrightarrow>
      status_code x = 500 \<and>
      detail x = ustr ''Failed after multiple retries. Last AI response: None'' \<and>
      (\<forall>i. 0 \<le> i \<and> i < 5 \<longrightarrow>
         (\<exists>m. groq i (main_prompt (recommendation_table request) (body_analysis_table request))
                 = Raises m)))"
proof (intro conjI impI)
  assume l: "fst (retry_loop groq rt bt retries delay attempt last_response tr) = Inl y"
  have y: "y = \<lparr>status_code = 500, detail = failure_detail last_response\<rparr> \<and>
     (\<forall>i. attempt \<le> i \<and> i < retries \<longrightarrow> (\<exists>m. groq i (main_prompt rt bt) = Raises m))"
    using l by (rule retry_loop_Inl)
  show "status_code y = 500" using y by simp
  show "detail y = ustr ''Failed after multiple retries. Last AI response: '' @
                 (case last_response of None \<Rightarrow> ustr ''None'' | Some text \<Rightarrow> text)"
    using y by (simp add: failure_detail_def str_opt_def)
  show "\<forall>i. attempt \<le> i \<and> i < retries \<longrightarrow> (\<exists>m. groq i (main_prompt rt bt) = Raises m)"
    using y by blast
next
  assume e: "fst (rs_engine groq request) = Inl x"
  have x: "x = \<lparr>status_code = 500, detail = failure_detail None\<rparr> \<and>
     (\<forall>i. 0 \<le> i \<and> i < 5 \<longrightarrow>
        (\<exists>m. groq i (main_prompt (recommendation_table request) (body_analysis_table request))
                = Raises m))"
    using e unfolding rs_engine_def process_rs_with_retry_def by (rule retry_loop_Inl)
  have d: "failure_detail None = ustr ''Failed after multiple retries. Last AI response: None''"
    by (simp add: failure_detail_def str_opt_def ustr_def)
  show "status_code x = 500" using x by simp
  show "detail x = ustr ''Failed after multiple retries. Last AI response: None''"
    using x d by simp
  show "\<forall>i. 0 \<le> i \<and> i < 5 \<longrightarrow>
         (\<exists>m. groq i (main_prompt (recommendation_table request) (body_analysis_table request))
                 = Raises m)"
    using x by blast
qed

theorem rs_engine_exhausted_detail_down:
  "fst (retry_loop groq_down (ustr ''a'') (ustr ''b'') 5 2 3 (Some (ustr ''partial reply'')) []) =
     Inl \<lparr>status_code = 500,
          detail = ustr ''Failed after multiple retries. Last AI response: partial reply''\<rparr> \<and>
   fst (rs_engine groq_down request_ab) =
     Inl \<lparr>status_code = 500,
          detail = ustr ''Failed after multiple retries. Last AI response: None''\<rparr>"
proof -
  let ?y = "\<lparr>status_code = 500, detail = failure_detail (Some (ustr ''partial reply''))\<rparr>"
  let ?x = "\<lparr>status_code = 500, detail = failure_detail None\<rparr>"
  have l: "fst (retry_loop groq_down (ustr ''a'') (ustr ''b'') 5 2 3
             (Some (ustr ''partial reply'')) []) = Inl ?y"
    by (rule retry_loop_down)
  note t = rs_engine_exhausted_detail[where groq = groq_down and rt = "ustr ''a''"
      and bt = "ustr ''b''" and retries = 5 and delay = 2 and attempt = 3
      and last_response = "Some (ustr ''partial reply'')" and tr = "[]" and y = ?y
      and request = request_ab and x = ?x]
  have "detail ?y = ustr ''Failed after multiple retries. Last AI response: '' @ ustr ''partial reply''"
    using t l by simp
  then have a: "?y = \<lparr>status_code = 500,
      detail = ustr ''Failed after multiple retries. Last AI response: partial reply''\<rparr>"
    by (simp add: ustr_def)
  have "detail ?x = ustr ''Failed after multiple retries. Last AI response: None''"
    using t rs_engine_down by simp
  then have b: "?x = \<lparr>status_code = 500,
      detail = ustr ''Failed after multiple retries. Last AI response: None''\<rparr>"
    by simp
  show ?thesis using l rs_engine_down unfolding a b by simp
qed

end
